theory Spec2Isabelle
  imports Main "HOL-Library.Word" "HOL-Library.Sublist"
begin

unbundle bit_operations_syntax

section \<open>Data structures of main.cpp\<close>

text \<open>
  The embedding follows \<^verbatim>\<open>src/main.cpp\<close>. A position in a vector or a string is
  a \<open>nat\<close>, and an \<^verbatim>\<open>int\<close> that holds such a position or \<open>- 1\<close> is an \<open>int\<close>: the
  model is that of a file with fewer than \<open>2 ^ 31\<close> kept lines, where these do not
  overflow. The counters of \<open>LevelsCount\<close>, which outlive a load, are 32-bit words read
  with \<open>sint\<close>: an increment at \<^verbatim>\<open>INT_MAX\<close> is undefined in the source and wraps here,
  and what is proved of a counter's value is proved where the count stays in range.
  \<^verbatim>\<open>size_t\<close> is a 64-bit word. \<^verbatim>\<open>std::string::npos\<close> is \<open>None\<close>.
\<close>

datatype LogLevel = Display | Warning | Error

type_synonym size_t = "64 word"

type_synonym cint = "32 word"

record LogEntry =
  FullText :: string
  Category :: string
  Level :: LogLevel
  ContentHash :: size_t
  IsHeader :: bool
  LogIndex :: int

text \<open>A default-constructed \<^verbatim>\<open>LogEntry\<close> (the member initialisers of the struct).\<close>

definition LogEntry_init :: LogEntry where
  "LogEntry_init =
     \<lparr>FullText = [], Category = [], Level = Error, ContentHash = 0,
      IsHeader = False, LogIndex = 0\<rparr>"

record LogViewerState =
  AllLogs :: "LogEntry list"
  FilteredIndices :: "nat list"
  LevelsCount :: "LogLevel \<rightharpoonup> cint"
  SelectedIndices :: "nat set"
  LastClickedIndex :: int
  ShowErrors :: bool
  ShowWarnings :: bool
  ShowDisplay :: bool
  SearchBuffer :: string
  SelectedCategory :: string
  UniqueCategories :: "string set"
  ShowDuplicates :: bool

text \<open>
  The state as its member initialisers leave it. \<open>SearchBuffer\<close> holds the C string of
  the \<^verbatim>\<open>char[128]\<close> buffer, the characters before its first NUL.
\<close>

definition LogViewerState_init :: LogViewerState where
  "LogViewerState_init =
     \<lparr>AllLogs = [], FilteredIndices = [], LevelsCount = Map.empty,
      SelectedIndices = {}, LastClickedIndex = - 1,
      ShowErrors = True, ShowWarnings = True, ShowDisplay = True,
      SearchBuffer = [], SelectedCategory = ''All'', UniqueCategories = {},
      ShowDuplicates = True\<rparr>"

section \<open>The string operations the program calls\<close>

text \<open>\<open>starts_with s needle\<close>: \<open>needle\<close> occurs in \<open>s\<close> at position 0.\<close>

fun starts_with :: "string \<Rightarrow> string \<Rightarrow> bool" where
  "starts_with s [] = True"
| "starts_with [] (n # ns) = False"
| "starts_with (c # cs) (n # ns) = (c = n \<and> starts_with cs ns)"

text \<open>\<^verbatim>\<open>s.find(needle)\<close>: the position of the first occurrence, \<open>None\<close> for npos.\<close>

fun str_find :: "string \<Rightarrow> string \<Rightarrow> nat option" where
  "str_find [] needle = (if needle = [] then Some 0 else None)"
| "str_find (c # cs) needle =
     (if starts_with (c # cs) needle then Some 0
      else map_option Suc (str_find cs needle))"

text \<open>\<^verbatim>\<open>s.find(ch, pos)\<close>: the first position at or after \<open>pos\<close> that holds \<open>ch\<close>.\<close>

fun chr_find :: "string \<Rightarrow> char \<Rightarrow> nat \<Rightarrow> nat option" where
  "chr_find [] ch pos = None"
| "chr_find (c # cs) ch 0 =
     (if c = ch then Some 0 else map_option Suc (chr_find cs ch 0))"
| "chr_find (c # cs) ch (Suc pos) = map_option Suc (chr_find cs ch pos)"

text \<open>\<^verbatim>\<open>s.substr(pos)\<close> and \<^verbatim>\<open>s.substr(pos, len)\<close>, for \<open>pos \<le> length s\<close>.\<close>

definition substr :: "string \<Rightarrow> nat \<Rightarrow> string" where
  "substr s pos = drop pos s"

definition substr_len :: "string \<Rightarrow> nat \<Rightarrow> nat \<Rightarrow> string" where
  "substr_len s pos len = take len (drop pos s)"

text \<open>\<^verbatim>\<open>::tolower\<close> in the C locale, which the program never changes.\<close>

definition tolower :: "char \<Rightarrow> char" where
  "tolower c =
     (if 65 \<le> (of_char c :: nat) \<and> (of_char c :: nat) \<le> 90
      then char_of (of_char c + 32 :: nat) else c)"

text \<open>
  The lines \<^verbatim>\<open>std::getline\<close> reads from a stream holding the given text: a line ends
  at a newline, which is dropped, or at the end of the text; the read that finds nothing
  left fails and ends the loop. \<open>cur\<close> is the line being read, reversed.
\<close>

fun getlines_from :: "string \<Rightarrow> string \<Rightarrow> string list" where
  "getlines_from cur [] = (if cur = [] then [] else [rev cur])"
| "getlines_from cur (c # cs) =
     (if c = CHR 0x0A then rev cur # getlines_from [] cs
      else getlines_from (c # cur) cs)"

definition getlines :: "string \<Rightarrow> string list" where
  "getlines text = getlines_from [] text"

section \<open>LogViewerState::LoadFile\<close>

text \<open>
  \<^verbatim>\<open>std::hash<std::string>\<close> belongs to the C++ library and is implementation-defined:
  it is the parameter \<open>h\<close> of the model. The file system is the parameter \<open>fs\<close>, the
  text a path opens to, \<open>None\<close> when the stream does not open.
\<close>

text \<open>The header branch of the loop body, lines 131 to 168.\<close>

definition header_level :: "string \<Rightarrow> LogLevel" where
  "header_level line =
     (if str_find line ''Error:'' \<noteq> None \<or> str_find line ''Critical:'' \<noteq> None
         \<or> str_find line ''Fatal:'' \<noteq> None then Error
      else if str_find line ''Warning:'' \<noteq> None then Warning
      else Display)"

definition header_category :: "string \<Rightarrow> string" where
  "header_category line =
     (case str_find line ''Log'' of
        None \<Rightarrow> ''General''
      | Some catStart \<Rightarrow>
          if catStart > 0 \<and>
             (line ! (catStart - 1) = CHR '']'' \<or> line ! (catStart - 1) = CHR '' ''
              \<or> line ! (catStart - 1) = CHR '':'')
          then (case chr_find line (CHR '':'') catStart of
                  None \<Rightarrow> ''General''
                | Some catEnd \<Rightarrow> substr_len line catStart (catEnd - catStart))
          else ''General'')"

definition textToHash :: "string \<Rightarrow> string" where
  "textToHash line =
     (case str_find line ''Log'' of
        Some catStart \<Rightarrow> substr line catStart
      | None \<Rightarrow> line)"

definition header_entry :: "(string \<Rightarrow> size_t) \<Rightarrow> string \<Rightarrow> int \<Rightarrow> LogEntry" where
  "header_entry h line idx =
     LogEntry_init
       \<lparr>FullText := line, LogIndex := idx, IsHeader := True,
        Level := header_level line, Category := header_category line,
        ContentHash := h (textToHash line)\<rparr>"

text \<open>The continuation branch, lines 169 to 176.\<close>

definition continuation_entry :: "string \<Rightarrow> int \<Rightarrow> LogLevel \<Rightarrow> string \<Rightarrow> LogEntry" where
  "continuation_entry line idx currentLevel currentCategory =
     LogEntry_init
       \<lparr>FullText := ''      '' @ line, LogIndex := idx, IsHeader := False,
        Level := currentLevel, Category := currentCategory, ContentHash := 0\<rparr>"

text \<open>The locals of \<^verbatim>\<open>LoadFile\<close> that live across iterations.\<close>

record LoadLocals =
  currentLevel :: LogLevel
  currentCategory :: string
  CurrentIndex :: int

text \<open>\<^verbatim>\<open>LevelsCount[lv]\<close>: \<^verbatim>\<open>operator[]\<close> of the map, 0 for a key not yet there.\<close>

definition levels_at :: "(LogLevel \<rightharpoonup> cint) \<Rightarrow> LogLevel \<Rightarrow> cint" where
  "levels_at m lv = (case m lv of None \<Rightarrow> 0 | Some c \<Rightarrow> c)"

text \<open>The test of line 131 that makes a line a header.\<close>

definition is_header_line :: "string \<Rightarrow> bool" where
  "is_header_line line = (line \<noteq> [] \<and> line ! 0 = CHR ''['')"

text \<open>One iteration for a line that is neither the summary nor empty, lines 124 to 180.\<close>

definition load_line ::
  "(string \<Rightarrow> size_t) \<Rightarrow> string \<Rightarrow> LoadLocals \<times> LogViewerState
     \<Rightarrow> LoadLocals \<times> LogViewerState" where
  "load_line h line s =
     (let loc = fst s; st = snd s;
          idx = CurrentIndex loc + 1;
          header = is_header_line line;
          entry = (if header then header_entry h line idx
                   else continuation_entry line idx (currentLevel loc) (currentCategory loc));
          loc' = (if header
                  then loc\<lparr>currentLevel := Level entry, currentCategory := Category entry,
                           CurrentIndex := idx\<rparr>
                  else loc\<lparr>CurrentIndex := idx\<rparr>)
      in (loc',
          st\<lparr>AllLogs := AllLogs st @ [entry],
             LevelsCount := (LevelsCount st)(Level entry \<mapsto> levels_at (LevelsCount st) (Level entry) + 1),
             UniqueCategories := insert (Category entry) (UniqueCategories st)\<rparr>))"

text \<open>The locals as lines 115 to 118 initialise them.\<close>

definition LoadLocals_init :: LoadLocals where
  "LoadLocals_init =
     \<lparr>currentLevel = Display, currentCategory = ''General'', CurrentIndex = - 1\<rparr>"

text \<open>The \<^verbatim>\<open>while (std::getline(file, line))\<close> loop with its break and its continue.\<close>

fun load_loop ::
  "(string \<Rightarrow> size_t) \<Rightarrow> string list \<Rightarrow> LoadLocals \<times> LogViewerState
     \<Rightarrow> LoadLocals \<times> LogViewerState" where
  "load_loop h [] s = s"
| "load_loop h (line # rest) s =
     (if str_find line ''Warning/Error Summary'' \<noteq> None then s
      else if line = [] then load_loop h rest s
      else load_loop h rest (load_line h line s))"

section \<open>LogViewerState::ApplyFilters\<close>

text \<open>The duplicate handling of one record, lines 202 to 210: the set and the flag after it.\<close>

definition dup_step :: "bool \<Rightarrow> LogEntry \<Rightarrow> size_t set \<times> bool \<Rightarrow> size_t set \<times> bool" where
  "dup_step showDuplicates log s =
     (if IsHeader log then
        (if \<not> showDuplicates \<and> ContentHash log \<in> fst s then (fst s, True)
         else (insert (ContentHash log) (fst s), False))
      else s)"

text \<open>The standard filters, lines 217 to 226: True when no \<^verbatim>\<open>continue\<close> is taken.\<close>

definition passes_filters :: "LogViewerState \<Rightarrow> string \<Rightarrow> LogEntry \<Rightarrow> bool" where
  "passes_filters st search log =
     (if Level log = Error \<and> \<not> ShowErrors st then False
      else if Level log = Warning \<and> \<not> ShowWarnings st then False
      else if Level log = Display \<and> \<not> ShowDisplay st then False
      else if SelectedCategory st \<noteq> ''All'' \<and> Category log \<noteq> SelectedCategory st then False
      else if search \<noteq> [] \<and> str_find (map tolower (FullText log)) search = None then False
      else True)"

text \<open>The loop over \<open>AllLogs\<close> from position \<open>i\<close> on; the result is what it pushes back.\<close>

fun filter_loop ::
  "LogViewerState \<Rightarrow> string \<Rightarrow> LogEntry list \<Rightarrow> nat \<Rightarrow> size_t set \<times> bool \<Rightarrow> nat list" where
  "filter_loop st search [] i s = []"
| "filter_loop st search (log # rest) i s =
     (let s' = dup_step (ShowDuplicates st) log s in
      if snd s' then filter_loop st search rest (i + 1) s'
      else if passes_filters st search log then i # filter_loop st search rest (i + 1) s'
      else filter_loop st search rest (i + 1) s')"

definition ApplyFilters :: "LogViewerState \<Rightarrow> LogViewerState" where
  "ApplyFilters st =
     st\<lparr>FilteredIndices :=
          filter_loop st (map tolower (SearchBuffer st)) (AllLogs st) 0 ({}, False),
        SelectedIndices := {}, LastClickedIndex := - 1\<rparr>"

definition LoadFile ::
  "(string \<Rightarrow> size_t) \<Rightarrow> (string \<rightharpoonup> string) \<Rightarrow> string \<Rightarrow> LogViewerState
     \<Rightarrow> LogViewerState" where
  "LoadFile h fs path st =
     (let st1 = st\<lparr>AllLogs := [], UniqueCategories := {''All''}\<rparr> in
      case fs path of
        None \<Rightarrow> st1
      | Some text \<Rightarrow>
          ApplyFilters
            (snd (load_loop h (getlines text)
               (LoadLocals_init, st1))))"

section \<open>RenderLogViewer\<close>

text \<open>
  The rows of the log list, lines 338 to 340: each row drawn reads
  \<^verbatim>\<open>AllLogs[FilteredIndices[i]]\<close>. The list clipper draws the rows on screen, the
  first one always; the model draws them all. A read outside the vector is undefined
  behaviour in the source and \<open>None\<close> here.
\<close>

fun render_rows :: "LogEntry list \<Rightarrow> nat list \<Rightarrow> LogEntry list option" where
  "render_rows logs [] = Some []"
| "render_rows logs (originalIndex # rest) =
     (if originalIndex < length logs
      then map_option ((#) (logs ! originalIndex)) (render_rows logs rest)
      else None)"

text \<open>
  The context window, lines 419 to 444, for the global \<^verbatim>\<open>g_LastClickedIndex\<close>: the
  lines \<^verbatim>\<open>[i] text\<close> it draws, \<open>None\<close> when it draws the hint instead. The comparison
  with \<^verbatim>\<open>AllLogs.size()\<close> converts the \<^verbatim>\<open>int\<close> to \<^verbatim>\<open>size_t\<close>.
\<close>

definition to_size_t :: "int \<Rightarrow> int" where
  "to_size_t g = (if g < 0 then g + 2 ^ 64 else g)"

definition context_window :: "LogViewerState \<Rightarrow> int \<Rightarrow> (int \<times> string) list option" where
  "context_window st g =
     (if g \<noteq> - 1 \<and> to_size_t g < int (length (AllLogs st)) then
        (let startIdx = max 0 (g - 5);
             endIdx = min (int (length (AllLogs st))) (g + 6)
         in Some (map (\<lambda>i. (i, FullText (AllLogs st ! nat i))) [startIdx..endIdx - 1]))
      else None)"

text \<open>
  Modelled from the spec: \<^verbatim>\<open>std::hash<std::string>\<close> is not code of this repository;
  the spec asks for a deterministic 64-bit non-cryptographic string hash. FNV-1a, the
  string hash of the MSVC library, instantiates \<open>h\<close> where a concrete input is
  evaluated.
\<close>

definition fnv1a :: "string \<Rightarrow> size_t" where
  "fnv1a s =
     fold (\<lambda>c acc. (acc XOR of_nat (of_char c)) * 1099511628211) s 14695981039346656037"

section \<open>The notions the properties are stated with\<close>

text \<open>The visible-index sequence a state's filters give: what \<open>ApplyFilters\<close> stores.\<close>

definition computeView :: "LogViewerState \<Rightarrow> nat list" where
  "computeView st = FilteredIndices (ApplyFilters st)"

text \<open>The header that owns record \<open>i\<close>: the nearest header at or before \<open>i\<close>, if any.\<close>

fun owner :: "LogEntry list \<Rightarrow> nat \<Rightarrow> nat option" where
  "owner logs 0 = (if IsHeader (logs ! 0) then Some 0 else None)"
| "owner logs (Suc i) = (if IsHeader (logs ! Suc i) then Some (Suc i) else owner logs i)"

text \<open>The fingerprints of the headers of a record sequence.\<close>

definition header_hashes :: "LogEntry list \<Rightarrow> size_t set" where
  "header_hashes logs = ContentHash ` set (filter IsHeader logs)"

text \<open>Record \<open>j\<close> is a header whose fingerprint an earlier header has.\<close>

definition duplicate_header :: "LogEntry list \<Rightarrow> nat \<Rightarrow> bool" where
  "duplicate_header logs j =
     (IsHeader (logs ! j) \<and> ContentHash (logs ! j) \<in> header_hashes (take j logs))"

text \<open>Record \<open>k\<close> is a duplicate header or a continuation of one.\<close>

definition in_duplicate_block :: "LogEntry list \<Rightarrow> nat \<Rightarrow> bool" where
  "in_duplicate_block logs k =
     (case owner logs k of None \<Rightarrow> False | Some j \<Rightarrow> duplicate_header logs j)"

definition visible :: "LogViewerState \<Rightarrow> string \<Rightarrow> LogEntry list \<Rightarrow> nat \<Rightarrow> bool" where
  "visible st search logs i =
     ((ShowDuplicates st \<or> \<not> in_duplicate_block logs i) \<and> passes_filters st search (logs ! i))"

text \<open>
  The lines of a file that become records: those before the first line holding the
  summary marker, without the empty ones, as line 122 tests \<^verbatim>\<open>line.empty()\<close>.
\<close>

definition kept_lines :: "string list \<Rightarrow> string list" where
  "kept_lines lines =
     filter (\<lambda>l. l \<noteq> [])
       (takeWhile (\<lambda>l. str_find l ''Warning/Error Summary'' = None) lines)"

text \<open>
  In the words of the spec: a blank line is one with no character other than
  whitespace (space, tab, line feed, vertical tab, form feed, carriage return), and
  the lines it counts are the non-blank ones before the summary marker.
\<close>

definition is_space :: "char \<Rightarrow> bool" where
  "is_space c = (c \<in> {CHR '' '', CHR 0x09, CHR 0x0A, CHR 0x0B, CHR 0x0C, CHR 0x0D})"

definition blank_line :: "string \<Rightarrow> bool" where
  "blank_line line = list_all is_space line"

definition nonblank_lines :: "string list \<Rightarrow> string list" where
  "nonblank_lines lines =
     filter (\<lambda>l. \<not> blank_line l)
       (takeWhile (\<lambda>l. str_find l ''Warning/Error Summary'' = None) lines)"

text \<open>The number of records of a level.\<close>

definition count_level :: "LogLevel \<Rightarrow> LogEntry list \<Rightarrow> nat" where
  "count_level lv logs = length (filter (\<lambda>r. Level r = lv) logs)"

text \<open>The level and category a continuation takes over from the header \<open>ow\<close>, if any.\<close>

definition inherited :: "LogEntry list \<Rightarrow> nat option \<Rightarrow> LogLevel \<times> string" where
  "inherited logs ow =
     (case ow of None \<Rightarrow> (Display, ''General'')
      | Some j \<Rightarrow> (Level (logs ! j), Category (logs ! j)))"

text \<open>The owner of the last record of a sequence.\<close>

definition last_owner :: "LogEntry list \<Rightarrow> nat option" where
  "last_owner logs = (if logs = [] then None else owner logs (length logs - 1))"

text \<open>The invariant of the loading loop: every continuation so far has the level and
  category of its owner, and the locals hold those of the last owner.\<close>

definition inherits_ok :: "LogEntry list \<Rightarrow> bool" where
  "inherits_ok logs =
     (\<forall>i<length logs. \<not> IsHeader (logs ! i) \<longrightarrow>
        (Level (logs ! i), Category (logs ! i)) = inherited logs (owner logs i))"

definition context_ok :: "LoadLocals \<times> LogViewerState \<Rightarrow> bool" where
  "context_ok s =
     (inherits_ok (AllLogs (snd s)) \<and>
      (currentLevel (fst s), currentCategory (fst s))
         = inherited (AllLogs (snd s)) (last_owner (AllLogs (snd s))))"

text \<open>The value of \<^verbatim>\<open>isSkippingDuplicates\<close> after the records \<open>pre\<close>.\<close>

definition skip_flag :: "LogViewerState \<Rightarrow> LogEntry list \<Rightarrow> bool" where
  "skip_flag st pre =
     (\<not> ShowDuplicates st \<and> pre \<noteq> [] \<and> in_duplicate_block pre (length pre - 1))"

section \<open>Inputs for evaluation\<close>

text \<open>A state holding ten records, with the error toggle off.\<close>

definition ten_logs :: LogViewerState where
  "ten_logs = LogViewerState_init\<lparr>AllLogs := replicate 10 LogEntry_init, ShowErrors := False\<rparr>"

text \<open>
  The example of the spec: a header, its continuation and the same header again under
  another index, as a file and as the records \<open>LoadFile\<close> makes of it.
\<close>

definition example_text :: string where
  "example_text =
     ''[0] LogCook: Error: bad texture'' @ [CHR 0x0A] @
     ''   continuation info'' @ [CHR 0x0A] @
     ''[1] LogCook: Error: bad texture'' @ [CHR 0x0A]"

definition example_fs :: "string \<rightharpoonup> string" where
  "example_fs = [''cook.log'' \<mapsto> example_text]"

definition example_entries :: "LogEntry list" where
  "example_entries =
     [\<lparr>FullText = ''[0] LogCook: Error: bad texture'', Category = ''LogCook'',
       Level = Error, ContentHash = 11391113733768164307, IsHeader = True, LogIndex = 0\<rparr>,
      \<lparr>FullText = ''         continuation info'', Category = ''LogCook'',
       Level = Error, ContentHash = 0, IsHeader = False, LogIndex = 1\<rparr>,
      \<lparr>FullText = ''[1] LogCook: Error: bad texture'', Category = ''LogCook'',
       Level = Error, ContentHash = 11391113733768164307, IsHeader = True, LogIndex = 2\<rparr>]"

definition example_state :: LogViewerState where
  "example_state = LogViewerState_init\<lparr>AllLogs := example_entries\<rparr>"

text \<open>Duplicates hidden and a search text that only the second header has.\<close>

definition hidden_first :: LogViewerState where
  "hidden_first = example_state\<lparr>ShowDuplicates := False, SearchBuffer := ''[1]''\<rparr>"

text \<open>
  Two headers whose \<^verbatim>\<open>Log\<close> is not taken as a category: one inside a word, one with
  no colon after it.
\<close>

definition unaccepted_text :: string where
  "unaccepted_text =
     ''[12] MyLogger: started'' @ [CHR 0x0A] @
     ''[13] LogTemp no colon here'' @ [CHR 0x0A]"

definition unaccepted_fs :: "string \<rightharpoonup> string" where
  "unaccepted_fs = [''u.log'' \<mapsto> unaccepted_text]"

definition unaccepted_logs :: "LogEntry list" where
  "unaccepted_logs = AllLogs (LoadFile fnv1a unaccepted_fs ''u.log'' LogViewerState_init)"

text \<open>A file with an empty line and a summary marker before its last header.\<close>

definition summary_text :: string where
  "summary_text =
     ''[0] LogA: x'' @ [CHR 0x0A] @ [CHR 0x0A] @ ''  cont'' @ [CHR 0x0A] @
     ''-- Warning/Error Summary --'' @ [CHR 0x0A] @ ''[9] LogB: y'' @ [CHR 0x0A]"

definition summary_fs :: "string \<rightharpoonup> string" where
  "summary_fs = [''s.log'' \<mapsto> summary_text]"

text \<open>A file with a line of spaces and a line of one tab between two headers.\<close>

definition blank_text :: string where
  "blank_text =
     ''[0] LogA: x'' @ [CHR 0x0A] @ ''   '' @ [CHR 0x0A] @ [CHR 0x09] @ [CHR 0x0A] @
     ''[1] LogB: y'' @ [CHR 0x0A]"

definition blank_fs :: "string \<rightharpoonup> string" where
  "blank_fs = [''b.log'' \<mapsto> blank_text]"

text \<open>A file that starts with a line that is no header.\<close>

definition orphan_text :: string where
  "orphan_text =
     ''orphan'' @ [CHR 0x0A] @ ''[0] LogA: Warning: w'' @ [CHR 0x0A] @ '' tail''"

definition orphan_fs :: "string \<rightharpoonup> string" where
  "orphan_fs = [''o.log'' \<mapsto> orphan_text]"

definition orphan_logs :: "LogEntry list" where
  "orphan_logs = AllLogs (LoadFile fnv1a orphan_fs ''o.log'' LogViewerState_init)"

text \<open>The example file loaded once, twice and three times.\<close>

definition loaded_once :: LogViewerState where
  "loaded_once = LoadFile fnv1a example_fs ''cook.log'' LogViewerState_init"

definition loaded_twice :: LogViewerState where
  "loaded_twice = LoadFile fnv1a example_fs ''cook.log'' loaded_once"

definition loaded_thrice :: LogViewerState where
  "loaded_thrice = LoadFile fnv1a example_fs ''cook.log'' loaded_twice"

text \<open>The example file loaded, then a path that does not open.\<close>

definition reloaded :: LogViewerState where
  "reloaded =
     LoadFile fnv1a example_fs ''missing.log''
       (LoadFile fnv1a example_fs ''cook.log'' LogViewerState_init)"


section \<open>Verified properties\<close>

subsection \<open>The context window\<close>

text \<open>
  C8. For a state of \<open>n\<close> records and a focus \<open>f\<close> with \<open>0 \<le> f < n\<close>, the context
  window draws exactly the raw records \<open>max 0 (f - 5)\<close> to \<open>min (n - 1) (f + 5)\<close>
  inclusive, each with its index, and it is the same for every state with the same
  records, whatever its filters are.
\<close>

theorem context_window_clamped:
  assumes "0 \<le> f" and "f < int (length (AllLogs st))"
  shows "context_window st f =
           Some (map (\<lambda>i. (i, FullText (AllLogs st ! nat i)))
                   [max 0 (f - 5)..min (int (length (AllLogs st)) - 1) (f + 5)])
         \<and> (\<forall>st'. AllLogs st' = AllLogs st \<longrightarrow> context_window st' f = context_window st f)"
proof
  have "to_size_t f = f"
    using assms by (simp add: to_size_t_def)
  moreover have "min (int (length (AllLogs st))) (f + 6) - 1
                   = min (int (length (AllLogs st)) - 1) (f + 5)"
    by simp
  ultimately show "context_window st f =
           Some (map (\<lambda>i. (i, FullText (AllLogs st ! nat i)))
                   [max 0 (f - 5)..min (int (length (AllLogs st)) - 1) (f + 5)])"
    using assms by (simp add: context_window_def Let_def)
  show "\<forall>st'. AllLogs st' = AllLogs st \<longrightarrow> context_window st' f = context_window st f"
    by (simp add: context_window_def)
qed

text \<open>Focus 3 of ten records gives the indices 0 to 8, focus 0 gives 0 to 5.\<close>

theorem context_window_clamped_witness:
  "(0::int) \<le> 3 \<and> 3 < int (length (AllLogs ten_logs)) \<and>
   map_option (map fst) (context_window ten_logs 3) = Some [0, 1, 2, 3, 4, 5, 6, 7, 8] \<and>
   (0::int) \<le> 0 \<and> 0 < int (length (AllLogs ten_logs)) \<and>
   map_option (map fst) (context_window ten_logs 0) = Some [0, 1, 2, 3, 4, 5]"
proof -
  have n: "int (length (AllLogs ten_logs)) = 10"
    by (simp add: ten_logs_def LogViewerState_init_def)
  have a: "(0::int) \<le> 3" "3 < int (length (AllLogs ten_logs))"
    and b: "(0::int) \<le> 0" "0 < int (length (AllLogs ten_logs))"
    by (simp_all add: n)
  have "[0..8::int] = [0, 1, 2, 3, 4, 5, 6, 7, 8]" "[0..5::int] = [0, 1, 2, 3, 4, 5]"
    by (simp_all add: upto.simps)
  then show ?thesis
    using context_window_clamped [OF a, THEN conjunct1]
      context_window_clamped [OF b, THEN conjunct1]
    by (simp add: n a b comp_def)
qed

subsection \<open>The view as a filter of the record positions\<close>

text \<open>What \<open>owner\<close>, \<open>duplicate_header\<close> and \<open>in_duplicate_block\<close> say, in plain terms.\<close>

lemma owner_le: "owner logs i = Some j \<Longrightarrow> j \<le> i"
  by (induction i) (auto split: if_splits)

lemma owner_append: "i < length pre \<Longrightarrow> owner (pre @ rest) i = owner pre i"
  by (induction i) (simp_all add: nth_append)

lemma owner_iff:
  "owner logs k = Some j \<longleftrightarrow>
     j \<le> k \<and> IsHeader (logs ! j) \<and> (\<forall>m. j < m \<and> m \<le> k \<longrightarrow> \<not> IsHeader (logs ! m))"
proof (induction k)
  case 0
  show ?case by auto
next
  case (Suc k)
  show ?case
  proof (cases "IsHeader (logs ! Suc k)")
    case True
    then show ?thesis
      by (auto simp: not_less_eq_eq dest: le_neq_implies_less)
  next
    case False
    have "(\<forall>m. j < m \<and> m \<le> Suc k \<longrightarrow> \<not> IsHeader (logs ! m))
            = (\<forall>m. j < m \<and> m \<le> k \<longrightarrow> \<not> IsHeader (logs ! m))"
      using False by (auto simp: le_Suc_eq)
    moreover have "j \<le> Suc k \<and> IsHeader (logs ! j) \<longleftrightarrow> j \<le> k \<and> IsHeader (logs ! j)"
      using False by (auto simp: le_Suc_eq)
    ultimately show ?thesis
      using False Suc.IH by auto
  qed
qed

lemma owner_None_iff:
  "owner logs k = None \<longleftrightarrow> (\<forall>m \<le> k. \<not> IsHeader (logs ! m))"
  by (induction k) (auto simp: le_Suc_eq)

lemma header_hashes_snoc:
  "header_hashes (pre @ [log]) =
     (if IsHeader log then insert (ContentHash log) (header_hashes pre) else header_hashes pre)"
  by (simp add: header_hashes_def)

lemma duplicate_header_iff:
  "j < length logs \<Longrightarrow>
   duplicate_header logs j \<longleftrightarrow>
     IsHeader (logs ! j) \<and>
     (\<exists>i<j. IsHeader (logs ! i) \<and> ContentHash (logs ! i) = ContentHash (logs ! j))"
proof -
  assume j: "j < length logs"
  have "ContentHash (logs ! j) \<in> header_hashes (take j logs) \<longleftrightarrow>
        (\<exists>i<j. IsHeader (logs ! i) \<and> ContentHash (logs ! i) = ContentHash (logs ! j))"
  proof
    assume "ContentHash (logs ! j) \<in> header_hashes (take j logs)"
    then obtain r where r: "r \<in> set (take j logs)" "IsHeader r"
        "ContentHash r = ContentHash (logs ! j)"
      by (auto simp: header_hashes_def)
    then obtain i where "i < length (take j logs)" "take j logs ! i = r"
      by (auto simp: in_set_conv_nth)
    with r j show "\<exists>i<j. IsHeader (logs ! i) \<and> ContentHash (logs ! i) = ContentHash (logs ! j)"
      by auto
  next
    assume "\<exists>i<j. IsHeader (logs ! i) \<and> ContentHash (logs ! i) = ContentHash (logs ! j)"
    then obtain i where i: "i < j" "IsHeader (logs ! i)"
        "ContentHash (logs ! i) = ContentHash (logs ! j)"
      by blast
    with j have "logs ! i \<in> set (take j logs)"
      by (auto simp: in_set_conv_nth intro!: exI [of _ i])
    with i have "ContentHash (logs ! i) \<in> ContentHash ` set (filter IsHeader (take j logs))"
      by (intro imageI) simp
    with i show "ContentHash (logs ! j) \<in> header_hashes (take j logs)"
      by (simp add: header_hashes_def)
  qed
  then show ?thesis by (simp add: duplicate_header_def)
qed

lemma duplicate_header_append:
  "j < length pre \<Longrightarrow> duplicate_header (pre @ rest) j = duplicate_header pre j"
  by (simp add: duplicate_header_def nth_append)

lemma in_duplicate_block_append:
  assumes "k < length pre"
  shows "in_duplicate_block (pre @ rest) k = in_duplicate_block pre k"
proof (cases "owner pre k")
  case None
  then show ?thesis using assms by (simp add: in_duplicate_block_def owner_append)
next
  case (Some j)
  then have "j < length pre" using owner_le assms by fastforce
  then show ?thesis
    using Some assms by (simp add: in_duplicate_block_def owner_append duplicate_header_append)
qed

lemma in_duplicate_block_snoc:
  "in_duplicate_block (pre @ [log]) (length pre) =
     (if IsHeader log then ContentHash log \<in> header_hashes pre
      else pre \<noteq> [] \<and> in_duplicate_block pre (length pre - 1))"
proof (cases "length pre")
  case 0
  then show ?thesis
    by (simp add: in_duplicate_block_def duplicate_header_def)
next
  case (Suc m)
  then have m: "m < length pre" "pre \<noteq> []" by auto
  show ?thesis
  proof (cases "IsHeader log")
    case True
    then show ?thesis
      using Suc by (simp add: in_duplicate_block_def duplicate_header_def nth_append)
  next
    case False
    have "in_duplicate_block (pre @ [log]) (Suc m) = in_duplicate_block (pre @ [log]) m"
      using False Suc by (simp add: in_duplicate_block_def nth_append)
    also have "\<dots> = in_duplicate_block pre m"
      using m(1) by (rule in_duplicate_block_append)
    finally show ?thesis
      using False Suc m by simp
  qed
qed

lemma dup_step_inv:
  "dup_step (ShowDuplicates st) log (header_hashes pre, skip_flag st pre)
     = (header_hashes (pre @ [log]), skip_flag st (pre @ [log]))"
  by (auto simp: dup_step_def header_hashes_snoc skip_flag_def in_duplicate_block_snoc)

lemma filter_loop_inv:
  "filter_loop st search rest (length pre) (header_hashes pre, skip_flag st pre)
     = filter (visible st search (pre @ rest)) [length pre..<length pre + length rest]"
proof (induction rest arbitrary: pre)
  case Nil
  show ?case by simp
next
  case (Cons log rest)
  have IH: "filter_loop st search rest (Suc (length pre))
              (header_hashes (pre @ [log]), skip_flag st (pre @ [log]))
            = filter (visible st search (pre @ log # rest))
                [Suc (length pre)..<Suc (length pre) + length rest]"
    using Cons.IH [of "pre @ [log]"] by simp
  have blk: "in_duplicate_block (pre @ log # rest) (length pre)
               = in_duplicate_block (pre @ [log]) (length pre)"
    using in_duplicate_block_append [of "length pre" "pre @ [log]" rest] by simp
  have vis: "visible st search (pre @ log # rest) (length pre)
               \<longleftrightarrow> \<not> skip_flag st (pre @ [log]) \<and> passes_filters st search log"
    unfolding visible_def blk by (auto simp: skip_flag_def)
  have "[length pre..<length pre + length (log # rest)]
          = length pre # [Suc (length pre)..<length pre + length (log # rest)]"
    by (rule upt_conv_Cons) simp
  then have upt: "[length pre..<length pre + length (log # rest)]
               = length pre # [Suc (length pre)..<Suc (length pre) + length rest]"
    by simp
  have "filter_loop st search (log # rest) (length pre) (header_hashes pre, skip_flag st pre)
          = (if visible st search (pre @ log # rest) (length pre) then [length pre] else [])
            @ filter_loop st search rest (Suc (length pre))
                (header_hashes (pre @ [log]), skip_flag st (pre @ [log]))"
    by (simp add: dup_step_inv vis Let_def)
  also have "\<dots> = filter (visible st search (pre @ log # rest))
                     (length pre # [Suc (length pre)..<Suc (length pre) + length rest])"
    unfolding IH by simp
  finally show ?case
    unfolding upt .
qed

lemma ApplyFilters_view:
  "FilteredIndices (ApplyFilters st)
     = filter (visible st (map tolower (SearchBuffer st)) (AllLogs st)) [0..<length (AllLogs st)]"
  using filter_loop_inv [of st "map tolower (SearchBuffer st)" "AllLogs st" "[]"]
  by (simp add: ApplyFilters_def header_hashes_def skip_flag_def)

lemma filter_subseq_mono:
  assumes "\<And>x. x \<in> set xs \<Longrightarrow> P x \<Longrightarrow> Q x"
  shows "subseq (filter P xs) (filter Q xs)"
proof -
  have "filter P xs = filter (\<lambda>x. Q x \<and> P x) xs"
    by (rule filter_cong) (use assms in auto)
  then have "filter P xs = filter P (filter Q xs)"
    by (simp add: filter_filter conj_commute)
  then show ?thesis
    by (metis subseq_filter_left)
qed

lemma in_duplicate_block_iff:
  assumes "k < length logs"
  shows "in_duplicate_block logs k \<longleftrightarrow>
     (\<exists>j\<le>k. IsHeader (logs ! j) \<and> (\<forall>m. j < m \<and> m \<le> k \<longrightarrow> \<not> IsHeader (logs ! m)) \<and>
        (\<exists>i<j. IsHeader (logs ! i) \<and> ContentHash (logs ! i) = ContentHash (logs ! j)))"
proof (cases "owner logs k")
  case None
  then have "\<forall>m\<le>k. \<not> IsHeader (logs ! m)"
    by (simp add: owner_None_iff)
  then show ?thesis
    using None by (auto simp: in_duplicate_block_def)
next
  case (Some j)
  then have j: "j \<le> k" "IsHeader (logs ! j)" "\<forall>m. j < m \<and> m \<le> k \<longrightarrow> \<not> IsHeader (logs ! m)"
    by (simp_all add: owner_iff)
  have uniq: "j' = j" if "j' \<le> k \<and> IsHeader (logs ! j') \<and>
      (\<forall>m. j' < m \<and> m \<le> k \<longrightarrow> \<not> IsHeader (logs ! m))" for j'
  proof -
    from that have "owner logs k = Some j'" by (simp add: owner_iff)
    with Some show ?thesis by simp
  qed
  have "j < length logs" using j(1) assms by simp
  then have dup: "duplicate_header logs j \<longleftrightarrow>
      (\<exists>i<j. IsHeader (logs ! i) \<and> ContentHash (logs ! i) = ContentHash (logs ! j))"
    using j(2) by (simp add: duplicate_header_iff)
  show ?thesis
  proof
    assume "in_duplicate_block logs k"
    then have "duplicate_header logs j"
      using Some by (simp add: in_duplicate_block_def)
    with dup j show "\<exists>j\<le>k. IsHeader (logs ! j) \<and> (\<forall>m. j < m \<and> m \<le> k \<longrightarrow> \<not> IsHeader (logs ! m)) \<and>
        (\<exists>i<j. IsHeader (logs ! i) \<and> ContentHash (logs ! i) = ContentHash (logs ! j))"
      by blast
  next
    assume "\<exists>j\<le>k. IsHeader (logs ! j) \<and> (\<forall>m. j < m \<and> m \<le> k \<longrightarrow> \<not> IsHeader (logs ! m)) \<and>
        (\<exists>i<j. IsHeader (logs ! i) \<and> ContentHash (logs ! i) = ContentHash (logs ! j))"
    then obtain j' where j': "j' \<le> k \<and> IsHeader (logs ! j') \<and>
          (\<forall>m. j' < m \<and> m \<le> k \<longrightarrow> \<not> IsHeader (logs ! m))"
        and d: "\<exists>i<j'. IsHeader (logs ! i) \<and> ContentHash (logs ! i) = ContentHash (logs ! j')"
      by blast
    from uniq [OF j'] d dup have "duplicate_header logs j" by simp
    then show "in_duplicate_block logs k"
      using Some by (simp add: in_duplicate_block_def)
  qed
qed


lemma set_computeView:
  "k \<in> set (computeView st) \<longleftrightarrow>
     k < length (AllLogs st) \<and> visible st (map tolower (SearchBuffer st)) (AllLogs st) k"
  by (auto simp: computeView_def ApplyFilters_view)


text \<open>The example file loads to the example records.\<close>

lemma example_loaded:
  "AllLogs (LoadFile fnv1a example_fs ''cook.log'' LogViewerState_init) = example_entries"
  by code_simp

subsection \<open>Duplicate suppression\<close>

text \<open>
  C3. The view is the increasing list of the positions whose record passes the standard
  filters and, when duplicates are hidden (\<open>ShowDuplicates\<close> off), is not in a duplicate
  block; with \<open>ShowDuplicates\<close> on no position is dropped by that rule. A position \<open>k\<close>
  is in a duplicate block exactly when the nearest header \<open>j\<close> at or before \<open>k\<close> has
  the fingerprint of an earlier header \<open>i\<close>: the duplicate header itself and its
  continuations up to the next header.
\<close>

theorem duplicate_suppression_view:
  "computeView st =
     filter (\<lambda>k. (ShowDuplicates st \<or> \<not> in_duplicate_block (AllLogs st) k) \<and>
                 passes_filters st (map tolower (SearchBuffer st)) (AllLogs st ! k))
       [0..<length (AllLogs st)]
   \<and> (\<forall>k<length (AllLogs st).
        in_duplicate_block (AllLogs st) k \<longleftrightarrow>
          (\<exists>j\<le>k. IsHeader (AllLogs st ! j) \<and>
             (\<forall>m. j < m \<and> m \<le> k \<longrightarrow> \<not> IsHeader (AllLogs st ! m)) \<and>
             (\<exists>i<j. IsHeader (AllLogs st ! i) \<and>
                ContentHash (AllLogs st ! i) = ContentHash (AllLogs st ! j))))"
proof
  have "visible st (map tolower (SearchBuffer st)) (AllLogs st)
          = (\<lambda>k. (ShowDuplicates st \<or> \<not> in_duplicate_block (AllLogs st) k) \<and>
                 passes_filters st (map tolower (SearchBuffer st)) (AllLogs st ! k))"
    by (rule ext) (simp add: visible_def)
  then show "computeView st =
     filter (\<lambda>k. (ShowDuplicates st \<or> \<not> in_duplicate_block (AllLogs st) k) \<and>
                 passes_filters st (map tolower (SearchBuffer st)) (AllLogs st ! k))
       [0..<length (AllLogs st)]"
    by (simp add: computeView_def ApplyFilters_view)
  show "\<forall>k<length (AllLogs st).
        in_duplicate_block (AllLogs st) k \<longleftrightarrow>
          (\<exists>j\<le>k. IsHeader (AllLogs st ! j) \<and>
             (\<forall>m. j < m \<and> m \<le> k \<longrightarrow> \<not> IsHeader (AllLogs st ! m)) \<and>
             (\<exists>i<j. IsHeader (AllLogs st ! i) \<and>
                ContentHash (AllLogs st ! i) = ContentHash (AllLogs st ! j)))"
    using in_duplicate_block_iff by blast
qed

text \<open>The example of the spec: hiding duplicates leaves 0 and 1, showing them all three.\<close>

theorem duplicate_suppression_view_witness:
  "computeView (example_state\<lparr>ShowDuplicates := False\<rparr>) = [0, 1] \<and>
   computeView (example_state\<lparr>ShowDuplicates := True\<rparr>) = [0, 1, 2] \<and>
   in_duplicate_block (AllLogs example_state) 2 \<and>
   \<not> in_duplicate_block (AllLogs example_state) 1"
proof (intro conjI)
  let ?off = "example_state\<lparr>ShowDuplicates := False\<rparr>"
  let ?on = "example_state\<lparr>ShowDuplicates := True\<rparr>"
  have "computeView ?off =
     filter (\<lambda>k. (ShowDuplicates ?off \<or> \<not> in_duplicate_block (AllLogs ?off) k) \<and>
                 passes_filters ?off (map tolower (SearchBuffer ?off)) (AllLogs ?off ! k))
       [0..<length (AllLogs ?off)]"
    by (rule duplicate_suppression_view [THEN conjunct1])
  also have "\<dots> = [0, 1]"
    by code_simp
  finally show "computeView ?off = [0, 1]" .
  have "computeView ?on =
     filter (\<lambda>k. (ShowDuplicates ?on \<or> \<not> in_duplicate_block (AllLogs ?on) k) \<and>
                 passes_filters ?on (map tolower (SearchBuffer ?on)) (AllLogs ?on ! k))
       [0..<length (AllLogs ?on)]"
    by (rule duplicate_suppression_view [THEN conjunct1])
  also have "\<dots> = [0, 1, 2]"
    by code_simp
  finally show "computeView ?on = [0, 1, 2]" .
  show "in_duplicate_block (AllLogs example_state) 2"
    by code_simp
  show "\<not> in_duplicate_block (AllLogs example_state) 1"
    by code_simp
qed

text \<open>
  C9. The fingerprint of a header enters the seen-set before the standard filters are
  looked at, so with duplicates hidden a later header with the fingerprint of an earlier
  one is never in the view, whether or not the earlier one passed the filters.
\<close>

theorem duplicate_of_hidden_header_excluded:
  assumes "\<not> ShowDuplicates st"
    and "i < j" and "j < length (AllLogs st)"
    and "IsHeader (AllLogs st ! i)" and "IsHeader (AllLogs st ! j)"
    and "ContentHash (AllLogs st ! j) = ContentHash (AllLogs st ! i)"
  shows "j \<notin> set (computeView st)"
proof -
  have "duplicate_header (AllLogs st) j"
    using assms by (auto simp: duplicate_header_iff)
  moreover have "owner (AllLogs st) j = Some j"
    using assms(5) by (auto simp: owner_iff)
  ultimately have "in_duplicate_block (AllLogs st) j"
    by (simp add: in_duplicate_block_def)
  then show ?thesis
    using assms(1) by (simp add: set_computeView visible_def)
qed


text \<open>
  In \<open>hidden_first\<close> the search text drops the first header and keeps the second, which
  is still missing from the view.
\<close>

theorem duplicate_of_hidden_header_excluded_witness:
  "\<not> ShowDuplicates hidden_first \<and> (0::nat) < 2 \<and> 2 < length (AllLogs hidden_first) \<and>
   IsHeader (AllLogs hidden_first ! 0) \<and> IsHeader (AllLogs hidden_first ! 2) \<and>
   ContentHash (AllLogs hidden_first ! 2) = ContentHash (AllLogs hidden_first ! 0) \<and>
   \<not> passes_filters hidden_first (map tolower (SearchBuffer hidden_first)) (AllLogs hidden_first ! 0) \<and>
   passes_filters hidden_first (map tolower (SearchBuffer hidden_first)) (AllLogs hidden_first ! 2) \<and>
   2 \<notin> set (computeView hidden_first)"
proof -
  have a: "\<not> ShowDuplicates hidden_first" "(0::nat) < 2" "2 < length (AllLogs hidden_first)"
    "IsHeader (AllLogs hidden_first ! 0)" "IsHeader (AllLogs hidden_first ! 2)"
    "ContentHash (AllLogs hidden_first ! 2) = ContentHash (AllLogs hidden_first ! 0)"
    by code_simp+
  have b: "\<not> passes_filters hidden_first (map tolower (SearchBuffer hidden_first)) (AllLogs hidden_first ! 0)"
    "passes_filters hidden_first (map tolower (SearchBuffer hidden_first)) (AllLogs hidden_first ! 2)"
    by code_simp+
  show ?thesis
    using duplicate_of_hidden_header_excluded [OF a] a b by simp
qed

subsection \<open>Narrowing a filter\<close>

lemma passes_narrow:
  "passes_filters (st\<lparr>ShowErrors := False\<rparr>) s log \<Longrightarrow> passes_filters st s log"
  "passes_filters (st\<lparr>ShowWarnings := False\<rparr>) s log \<Longrightarrow> passes_filters st s log"
  "passes_filters (st\<lparr>ShowDisplay := False\<rparr>) s log \<Longrightarrow> passes_filters st s log"
  "SelectedCategory st = ''All'' \<Longrightarrow>
     passes_filters (st\<lparr>SelectedCategory := c\<rparr>) s log \<Longrightarrow> passes_filters st s log"
  "passes_filters (st\<lparr>SearchBuffer := b\<rparr>) s log \<Longrightarrow> passes_filters st [] log"
  "passes_filters (st\<lparr>ShowDuplicates := d\<rparr>) s log = passes_filters st s log"
  by (auto simp: passes_filters_def split: if_splits)

lemma computeView_subseq:
  assumes "AllLogs st' = AllLogs st"
    and "\<And>k. k < length (AllLogs st) \<Longrightarrow>
           visible st' (map tolower (SearchBuffer st')) (AllLogs st) k \<Longrightarrow>
           visible st (map tolower (SearchBuffer st)) (AllLogs st) k"
  shows "subseq (computeView st') (computeView st)"
  unfolding computeView_def ApplyFilters_view assms(1)
  by (rule filter_subseq_mono) (use assms(2) in simp)


text \<open>
  C6. Switching a severity toggle off, choosing a category where \<^verbatim>\<open>All\<close> was selected,
  entering a search text where there was none, or hiding duplicates gives a view that is
  a subsequence of the view before: it loses positions or stays the same.
\<close>

theorem narrowing_shrinks_view:
  "subseq (computeView (st\<lparr>ShowErrors := False\<rparr>)) (computeView st) \<and>
   subseq (computeView (st\<lparr>ShowWarnings := False\<rparr>)) (computeView st) \<and>
   subseq (computeView (st\<lparr>ShowDisplay := False\<rparr>)) (computeView st) \<and>
   (SelectedCategory st = ''All'' \<longrightarrow>
      subseq (computeView (st\<lparr>SelectedCategory := c\<rparr>)) (computeView st)) \<and>
   (SearchBuffer st = [] \<longrightarrow>
      subseq (computeView (st\<lparr>SearchBuffer := b\<rparr>)) (computeView st)) \<and>
   subseq (computeView (st\<lparr>ShowDuplicates := False\<rparr>)) (computeView st)"
proof (intro conjI impI)
  show "subseq (computeView (st\<lparr>ShowErrors := False\<rparr>)) (computeView st)"
    by (rule computeView_subseq) (auto simp: visible_def dest: passes_narrow(1))
  show "subseq (computeView (st\<lparr>ShowWarnings := False\<rparr>)) (computeView st)"
    by (rule computeView_subseq) (auto simp: visible_def dest: passes_narrow(2))
  show "subseq (computeView (st\<lparr>ShowDisplay := False\<rparr>)) (computeView st)"
    by (rule computeView_subseq) (auto simp: visible_def dest: passes_narrow(3))
  show "subseq (computeView (st\<lparr>SelectedCategory := c\<rparr>)) (computeView st)"
    if "SelectedCategory st = ''All''"
    by (rule computeView_subseq) (auto simp: visible_def dest: passes_narrow(4) [OF that])
  show "subseq (computeView (st\<lparr>SearchBuffer := b\<rparr>)) (computeView st)"
    if "SearchBuffer st = []"
    by (rule computeView_subseq) (auto simp: visible_def that dest: passes_narrow(5))
  show "subseq (computeView (st\<lparr>ShowDuplicates := False\<rparr>)) (computeView st)"
    by (rule computeView_subseq) (auto simp: visible_def passes_narrow(6))
qed


theorem narrowing_shrinks_view_witness:
  "SelectedCategory example_state = ''All'' \<and> SearchBuffer example_state = [] \<and>
   computeView example_state = [0, 1, 2] \<and>
   computeView (example_state\<lparr>SearchBuffer := ''info''\<rparr>) = [1] \<and>
   subseq (computeView (example_state\<lparr>ShowErrors := False\<rparr>)) (computeView example_state) \<and>
   subseq (computeView (example_state\<lparr>SelectedCategory := ''LogTemp''\<rparr>)) (computeView example_state) \<and>
   subseq (computeView (example_state\<lparr>SearchBuffer := ''info''\<rparr>)) (computeView example_state) \<and>
   subseq (computeView (example_state\<lparr>ShowDuplicates := False\<rparr>)) (computeView example_state)"
proof -
  have a: "SelectedCategory example_state = ''All''" "SearchBuffer example_state = []"
    by code_simp+
  have v: "computeView example_state = [0, 1, 2]"
    "computeView (example_state\<lparr>SearchBuffer := ''info''\<rparr>) = [1]"
    by code_simp+
  show ?thesis
    using narrowing_shrinks_view [of example_state "''LogTemp''" "''info''"] a v by simp
qed

subsection \<open>Search\<close>



subsection \<open>String search\<close>

text \<open>
  \<open>str_find\<close> gives the first position where the needle occurs, and \<open>None\<close> only when
  it occurs nowhere.
\<close>

lemma starts_with_iff: "starts_with s n \<longleftrightarrow> take (length n) s = n"
  by (induction s n rule: starts_with.induct) auto

lemma str_find_Some:
  "str_find s n = Some p \<Longrightarrow>
     p \<le> length s \<and> take (length n) (drop p s) = n \<and> (\<forall>q<p. take (length n) (drop q s) \<noteq> n)"
proof (induction s arbitrary: p)
  case Nil
  then show ?case by (simp split: if_splits)
next
  case (Cons c cs)
  show ?case
  proof (cases "starts_with (c # cs) n")
    case True
    with Cons.prems show ?thesis by (simp add: starts_with_iff)
  next
    case False
    with Cons.prems obtain p' where p': "str_find cs n = Some p'" "p = Suc p'"
      by auto
    from Cons.IH [OF p'(1)] False p'(2) show ?thesis
      by (auto simp: starts_with_iff less_Suc_eq_0_disj)
  qed
qed

lemma str_find_None:
  "str_find s n = None \<Longrightarrow> take (length n) (drop q s) \<noteq> n"
proof (induction s arbitrary: q)
  case Nil
  then show ?case by (auto split: if_splits)
next
  case (Cons c cs)
  then have ns: "\<not> starts_with (c # cs) n" and r: "str_find cs n = None"
    by (auto split: if_splits)
  show ?case
  proof (cases q)
    case 0
    with ns show ?thesis by (simp add: starts_with_iff)
  next
    case (Suc q')
    with Cons.IH [OF r, of q'] show ?thesis by simp
  qed
qed


subsection \<open>The loading loop\<close>

text \<open>The loop is a fold of the loop body over the kept lines.\<close>

lemma load_loop_fold:
  "load_loop h lines s = fold (load_line h) (kept_lines lines) s"
  by (induction h lines s rule: load_loop.induct) (simp_all add: kept_lines_def)

lemma load_line_AllLogs:
  "AllLogs (snd (load_line h line s)) =
     AllLogs (snd s) @
       [if is_header_line line then header_entry h line (CurrentIndex (fst s) + 1)
        else continuation_entry line (CurrentIndex (fst s) + 1)
               (currentLevel (fst s)) (currentCategory (fst s))]"
  by (simp add: load_line_def Let_def)

lemma load_line_CurrentIndex:
  "CurrentIndex (fst (load_line h line s)) = CurrentIndex (fst s) + 1"
  by (simp add: load_line_def Let_def)

lemma entry_fields:
  "LogIndex (header_entry h line idx) = idx"
  "IsHeader (header_entry h line idx)"
  "FullText (header_entry h line idx) = line"
  "Level (header_entry h line idx) = header_level line"
  "Category (header_entry h line idx) = header_category line"
  "ContentHash (header_entry h line idx) = h (textToHash line)"
  "LogIndex (continuation_entry line idx lv cat) = idx"
  "\<not> IsHeader (continuation_entry line idx lv cat)"
  "FullText (continuation_entry line idx lv cat) = ''      '' @ line"
  "Level (continuation_entry line idx lv cat) = lv"
  "Category (continuation_entry line idx lv cat) = cat"
  "ContentHash (continuation_entry line idx lv cat) = 0"
  by (simp_all add: header_entry_def continuation_entry_def LogEntry_init_def)

lemma fold_LogIndex:
  "map LogIndex (AllLogs (snd (fold (load_line h) ls s))) =
     map LogIndex (AllLogs (snd s)) @ map (\<lambda>j. CurrentIndex (fst s) + 1 + int j) [0..<length ls]"
proof (induction ls arbitrary: s)
  case Nil
  show ?case by simp
next
  case (Cons l ls)
  have "map (\<lambda>j. CurrentIndex (fst s) + 1 + int j) [0..<length (l # ls)]
          = (CurrentIndex (fst s) + 1) # map (\<lambda>j. CurrentIndex (fst s) + 1 + int j) (map Suc [0..<length ls])"
    by (simp add: upt_conv_Cons map_Suc_upt del: upt_Suc)
  also have "\<dots> = (CurrentIndex (fst s) + 1) # map (\<lambda>j. CurrentIndex (fst s) + 1 + 1 + int j) [0..<length ls]"
    by (simp add: comp_def add.assoc)
  finally show ?case
    by (simp add: Cons.IH load_line_AllLogs load_line_CurrentIndex entry_fields)
qed

lemma fold_IsHeader:
  "map IsHeader (AllLogs (snd (fold (load_line h) ls s))) =
     map IsHeader (AllLogs (snd s)) @ map is_header_line ls"
  by (induction ls arbitrary: s) (simp_all add: load_line_AllLogs entry_fields)

lemma fold_FullText:
  "map FullText (AllLogs (snd (fold (load_line h) ls s))) =
     map FullText (AllLogs (snd s)) @
       map (\<lambda>l. if is_header_line l then l else ''      '' @ l) ls"
  by (induction ls arbitrary: s) (simp_all add: load_line_AllLogs entry_fields)

lemma LoadFile_AllLogs:
  "AllLogs (LoadFile h fs path st) =
     (case fs path of None \<Rightarrow> []
      | Some contents \<Rightarrow>
          AllLogs (snd (fold (load_line h) (kept_lines (getlines contents))
            (LoadLocals_init, st\<lparr>AllLogs := [], UniqueCategories := {''All''}\<rparr>))))"
  by (simp add: LoadFile_def Let_def ApplyFilters_def load_loop_fold split: option.split)


lemma nonblank_of_kept:
  "nonblank_lines lines = filter (\<lambda>l. \<not> blank_line l) (kept_lines lines)"
proof -
  have "(\<lambda>l. l \<noteq> [] \<and> \<not> blank_line l) = (\<lambda>l. \<not> blank_line l)"
    by (rule ext) (auto simp: blank_line_def)
  then show ?thesis
    by (simp add: nonblank_lines_def kept_lines_def conj_commute)
qed

text \<open>
  C4, as the code has it. When the file opens, the \<open>LogIndex\<close> values of the records
  are exactly \<open>0, 1, \<dots>, k - 1\<close> in this order, where \<open>k\<close> is the number of non-empty
  lines before the first line that holds \<^verbatim>\<open>Warning/Error Summary\<close>: empty lines give no
  record and do not advance the index, and nothing is read after the marker. A line of
  whitespace only is not empty and is counted: \<open>k\<close> is at least the number of non-blank
  lines, and it is that number when no counted line is blank.
\<close>

theorem sequence_index_contiguous:
  assumes "fs path = Some contents"
  shows "map LogIndex (AllLogs (LoadFile h fs path st))
           = map int [0..<length (kept_lines (getlines contents))]
       \<and> length (nonblank_lines (getlines contents)) \<le> length (kept_lines (getlines contents))
       \<and> ((\<forall>l \<in> set (kept_lines (getlines contents)). \<not> blank_line l) \<longrightarrow>
            kept_lines (getlines contents) = nonblank_lines (getlines contents))"
proof (intro conjI impI)
  show "map LogIndex (AllLogs (LoadFile h fs path st))
           = map int [0..<length (kept_lines (getlines contents))]"
    using assms by (simp add: LoadFile_AllLogs fold_LogIndex LoadLocals_init_def)
  show "length (nonblank_lines (getlines contents)) \<le> length (kept_lines (getlines contents))"
    by (simp add: nonblank_of_kept)
  show "kept_lines (getlines contents) = nonblank_lines (getlines contents)"
    if "\<forall>l \<in> set (kept_lines (getlines contents)). \<not> blank_line l"
    using that by (simp add: nonblank_of_kept)
qed

text \<open>
  Of five lines, one empty and two at or after the marker, two become records, with
  the indices 0 and 1; neither is blank.
\<close>

theorem sequence_index_contiguous_witness:
  "summary_fs ''s.log'' = Some summary_text \<and>
   kept_lines (getlines summary_text) = [''[0] LogA: x'', ''  cont''] \<and>
   \<not> blank_line ''[0] LogA: x'' \<and> \<not> blank_line ''  cont'' \<and>
   nonblank_lines (getlines summary_text) = [''[0] LogA: x'', ''  cont''] \<and>
   map LogIndex (AllLogs (LoadFile fnv1a summary_fs ''s.log'' LogViewerState_init)) = [0, 1]"
proof -
  have a: "summary_fs ''s.log'' = Some summary_text"
    by (simp add: summary_fs_def)
  have k: "kept_lines (getlines summary_text) = [''[0] LogA: x'', ''  cont'']"
    by code_simp
  have nb: "\<not> blank_line ''[0] LogA: x''" "\<not> blank_line ''  cont''"
    by code_simp+
  then have b: "\<forall>l \<in> set (kept_lines (getlines summary_text)). \<not> blank_line l"
    unfolding k by simp
  have u: "[0..<2] = [0, Suc 0]"
    by (simp add: upt_rec)
  show ?thesis
    using sequence_index_contiguous [where fs = summary_fs and path = "''s.log''"
        and contents = summary_text and h = fnv1a and st = LogViewerState_init, OF a] b nb
    by (simp add: a k u)
qed

text \<open>
  C4 as stated fails: \<open>blank_text\<close> has two non-blank lines, and the line of spaces and
  the line of one tab between them are records too, so the indices run from 0 to 3.
\<close>

theorem blank_lines_counted_counterexample:
  "blank_fs ''b.log'' = Some blank_text \<and>
   getlines blank_text = [''[0] LogA: x'', ''   '', [CHR 0x09], ''[1] LogB: y''] \<and>
   nonblank_lines (getlines blank_text) = [''[0] LogA: x'', ''[1] LogB: y''] \<and>
   map LogIndex (AllLogs (LoadFile fnv1a blank_fs ''b.log'' LogViewerState_init)) = [0, 1, 2, 3] \<and>
   map LogIndex (AllLogs (LoadFile fnv1a blank_fs ''b.log'' LogViewerState_init))
     \<noteq> map int [0..<length (nonblank_lines (getlines blank_text))]"
  by code_simp

subsection \<open>Continuation records\<close>

lemma inherited_append:
  assumes "i < length pre"
  shows "inherited (pre @ rest) (owner pre i) = inherited pre (owner pre i)"
proof (cases "owner pre i")
  case None
  then show ?thesis by (simp add: inherited_def)
next
  case (Some j)
  then have "j < length pre" using owner_le assms by fastforce
  then show ?thesis using Some by (simp add: inherited_def nth_append)
qed

lemma owner_snoc:
  "owner (pre @ [e]) (length pre) = (if IsHeader e then Some (length pre) else last_owner pre)"
proof (cases "length pre")
  case 0
  then show ?thesis by (simp add: last_owner_def)
next
  case (Suc m)
  then have "pre \<noteq> []" "m < length pre" by auto
  then show ?thesis
    using Suc by (simp add: last_owner_def nth_append owner_append)
qed

lemma last_owner_snoc:
  "last_owner (pre @ [e]) = (if IsHeader e then Some (length pre) else last_owner pre)"
  using owner_snoc [of pre e] by (simp add: last_owner_def)

lemma inherited_last_owner_append:
  "inherited (pre @ rest) (last_owner pre) = inherited pre (last_owner pre)"
proof (cases "pre = []")
  case True
  then show ?thesis by (simp add: last_owner_def inherited_def)
next
  case False
  then have "length pre - 1 < length pre" by simp
  from inherited_append [OF this] False show ?thesis
    by (simp add: last_owner_def)
qed

lemma load_line_context:
  "currentLevel (fst (load_line h line s)) =
     (if is_header_line line then header_level line else currentLevel (fst s))"
  "currentCategory (fst (load_line h line s)) =
     (if is_header_line line then header_category line else currentCategory (fst s))"
  by (simp_all add: load_line_def Let_def entry_fields)

lemma load_line_context_ok:
  assumes "context_ok s"
  shows "context_ok (load_line h line s)"
proof -
  let ?logs = "AllLogs (snd s)"
  let ?e = "if is_header_line line then header_entry h line (CurrentIndex (fst s) + 1)
        else continuation_entry line (CurrentIndex (fst s) + 1)
               (currentLevel (fst s)) (currentCategory (fst s))"
  have logs': "AllLogs (snd (load_line h line s)) = ?logs @ [?e]"
    by (rule load_line_AllLogs)
  have inv: "inherits_ok ?logs"
    and ctx: "(currentLevel (fst s), currentCategory (fst s)) = inherited ?logs (last_owner ?logs)"
    using assms by (simp_all add: context_ok_def)
  have hdr: "IsHeader ?e = is_header_line line"
    by (simp add: entry_fields)
  have "inherits_ok (?logs @ [?e])"
    unfolding inherits_ok_def
  proof (intro allI impI)
    fix i
    assume i: "i < length (?logs @ [?e])" and c: "\<not> IsHeader ((?logs @ [?e]) ! i)"
    show "(Level ((?logs @ [?e]) ! i), Category ((?logs @ [?e]) ! i))
            = inherited (?logs @ [?e]) (owner (?logs @ [?e]) i)"
    proof (cases "i < length ?logs")
      case True
      with c inv have "(Level (?logs ! i), Category (?logs ! i)) = inherited ?logs (owner ?logs i)"
        by (simp add: inherits_ok_def nth_append)
      then show ?thesis
        using True by (simp add: nth_append owner_append inherited_append)
    next
      case False
      with i have i': "i = length ?logs" by simp
      with c have nh: "\<not> is_header_line line" using hdr by simp
      then have "owner (?logs @ [?e]) i = last_owner ?logs"
        unfolding i' owner_snoc by (simp add: entry_fields)
      moreover have "(Level ?e, Category ?e) = inherited ?logs (last_owner ?logs)"
        using nh ctx by (simp add: entry_fields)
      ultimately show ?thesis
        unfolding i' by (simp add: inherited_last_owner_append)
    qed
  qed
  moreover have "(currentLevel (fst (load_line h line s)), currentCategory (fst (load_line h line s)))
                   = inherited (?logs @ [?e]) (last_owner (?logs @ [?e]))"
  proof (cases "is_header_line line")
    case True
    then show ?thesis
      by (simp add: load_line_context last_owner_snoc entry_fields inherited_def)
  next
    case False
    then show ?thesis
      using ctx by (simp add: load_line_context last_owner_snoc entry_fields
          inherited_last_owner_append)
  qed
  ultimately show ?thesis
    by (simp add: context_ok_def logs')
qed

lemma fold_context_ok:
  "context_ok s \<Longrightarrow> context_ok (fold (load_line h) ls s)"
  by (induction ls arbitrary: s) (simp_all add: load_line_context_ok)

lemma LoadFile_inherits_ok: "inherits_ok (AllLogs (LoadFile h fs path st))"
proof (cases "fs path")
  case None
  then show ?thesis by (simp add: LoadFile_AllLogs inherits_ok_def)
next
  case (Some contents)
  have "context_ok (LoadLocals_init, st\<lparr>AllLogs := [], UniqueCategories := {''All''}\<rparr>)"
    by (simp add: context_ok_def inherits_ok_def last_owner_def inherited_def LoadLocals_init_def)
  from fold_context_ok [OF this] show ?thesis
    using Some by (simp add: LoadFile_AllLogs context_ok_def)
qed


text \<open>
  C5. Record \<open>i\<close> is a header exactly when kept line \<open>i\<close> starts with \<^verbatim>\<open>[\<close>. A
  continuation record has the level and category of its owner, the nearest header before
  it; when no header comes before it, it has \<open>Display\<close> and \<^verbatim>\<open>General\<close>. The owner
  of \<open>i\<close> is the header \<open>j \<le> i\<close> with no header after it up to \<open>i\<close>, and there is
  none exactly when no record up to \<open>i\<close> is a header.
\<close>

theorem continuation_inherits:
  assumes "fs path = Some contents"
    and "i < length (AllLogs (LoadFile h fs path st))"
  shows "(IsHeader (AllLogs (LoadFile h fs path st) ! i)
            \<longleftrightarrow> is_header_line (kept_lines (getlines contents) ! i))
       \<and> (\<not> IsHeader (AllLogs (LoadFile h fs path st) ! i) \<longrightarrow>
            (case owner (AllLogs (LoadFile h fs path st)) i of
               None \<Rightarrow> Level (AllLogs (LoadFile h fs path st) ! i) = Display \<and>
                       Category (AllLogs (LoadFile h fs path st) ! i) = ''General''
             | Some j \<Rightarrow>
                 j < i \<and> IsHeader (AllLogs (LoadFile h fs path st) ! j) \<and>
                 Level (AllLogs (LoadFile h fs path st) ! i)
                   = Level (AllLogs (LoadFile h fs path st) ! j) \<and>
                 Category (AllLogs (LoadFile h fs path st) ! i)
                   = Category (AllLogs (LoadFile h fs path st) ! j)))
       \<and> (\<forall>j. owner (AllLogs (LoadFile h fs path st)) i = Some j \<longleftrightarrow>
              j \<le> i \<and> IsHeader (AllLogs (LoadFile h fs path st) ! j) \<and>
              (\<forall>m. j < m \<and> m \<le> i \<longrightarrow> \<not> IsHeader (AllLogs (LoadFile h fs path st) ! m)))
       \<and> (owner (AllLogs (LoadFile h fs path st)) i = None \<longleftrightarrow>
              (\<forall>m\<le>i. \<not> IsHeader (AllLogs (LoadFile h fs path st) ! m)))"
proof (intro conjI)
  let ?logs = "AllLogs (LoadFile h fs path st)"
  show "\<forall>j. owner ?logs i = Some j \<longleftrightarrow>
              j \<le> i \<and> IsHeader (?logs ! j) \<and> (\<forall>m. j < m \<and> m \<le> i \<longrightarrow> \<not> IsHeader (?logs ! m))"
    by (intro allI) (rule owner_iff)
  show "owner ?logs i = None \<longleftrightarrow> (\<forall>m\<le>i. \<not> IsHeader (?logs ! m))"
    by (rule owner_None_iff)
  have m: "map IsHeader ?logs = map is_header_line (kept_lines (getlines contents))"
    using assms(1) by (simp add: LoadFile_AllLogs fold_IsHeader)
  then have len: "length ?logs = length (kept_lines (getlines contents))"
    by (rule map_eq_imp_length_eq)
  have "IsHeader (?logs ! i) = map IsHeader ?logs ! i"
    using assms(2) by simp
  also have "\<dots> = map is_header_line (kept_lines (getlines contents)) ! i"
    by (simp only: m)
  also have "\<dots> = is_header_line (kept_lines (getlines contents) ! i)"
    using assms(2) len by simp
  finally show "IsHeader (?logs ! i) \<longleftrightarrow> is_header_line (kept_lines (getlines contents) ! i)" .
  show "\<not> IsHeader (?logs ! i) \<longrightarrow>
            (case owner ?logs i of
               None \<Rightarrow> Level (?logs ! i) = Display \<and> Category (?logs ! i) = ''General''
             | Some j \<Rightarrow>
                 j < i \<and> IsHeader (?logs ! j) \<and>
                 Level (?logs ! i) = Level (?logs ! j) \<and>
                 Category (?logs ! i) = Category (?logs ! j))"
  proof
    assume c: "\<not> IsHeader (?logs ! i)"
    with assms(2) LoadFile_inherits_ok [of h fs path st]
    have eq: "(Level (?logs ! i), Category (?logs ! i)) = inherited ?logs (owner ?logs i)"
      by (simp add: inherits_ok_def)
    show "case owner ?logs i of
               None \<Rightarrow> Level (?logs ! i) = Display \<and> Category (?logs ! i) = ''General''
             | Some j \<Rightarrow>
                 j < i \<and> IsHeader (?logs ! j) \<and>
                 Level (?logs ! i) = Level (?logs ! j) \<and>
                 Category (?logs ! i) = Category (?logs ! j)"
    proof (cases "owner ?logs i")
      case None
      with eq show ?thesis by (simp add: inherited_def)
    next
      case (Some j)
      then have "j \<le> i" "IsHeader (?logs ! j)"
        by (simp_all add: owner_iff)
      with c have "j < i" "IsHeader (?logs ! j)"
        by (auto simp: le_less)
      with eq Some show ?thesis by (simp add: inherited_def)
    qed
  qed
qed

text \<open>
  In the file that starts with a line that is no header, record 0 has the defaults and
  record 2 has the level and category of the header at 1.
\<close>

theorem continuation_inherits_witness:
  "orphan_fs ''o.log'' = Some orphan_text \<and>
   kept_lines (getlines orphan_text) = [''orphan'', ''[0] LogA: Warning: w'', '' tail''] \<and>
   map IsHeader orphan_logs = [False, True, False] \<and>
   owner orphan_logs 0 = None \<and>
   Level (orphan_logs ! 0) = Display \<and> Category (orphan_logs ! 0) = ''General'' \<and>
   owner orphan_logs 2 = Some 1 \<and>
   Level (orphan_logs ! 2) = Level (orphan_logs ! 1) \<and>
   Category (orphan_logs ! 2) = Category (orphan_logs ! 1) \<and>
   Level (orphan_logs ! 1) = Warning \<and> Category (orphan_logs ! 1) = ''LogA''"
proof -
  have a: "orphan_fs ''o.log'' = Some orphan_text"
    by (simp add: orphan_fs_def)
  have k: "kept_lines (getlines orphan_text) = [''orphan'', ''[0] LogA: Warning: w'', '' tail'']"
    by code_simp
  have e: "map IsHeader orphan_logs = [False, True, False]"
    "owner orphan_logs 0 = None" "owner orphan_logs 2 = Some 1"
    "Level (orphan_logs ! 1) = Warning" "Category (orphan_logs ! 1) = ''LogA''"
    by code_simp+
  have n: "0 < length orphan_logs" "2 < length orphan_logs"
    using e(1) by (auto dest: arg_cong [where f = length])
  have h: "\<not> IsHeader (orphan_logs ! 0)" "\<not> IsHeader (orphan_logs ! 2)"
    by code_simp+
  show ?thesis
    using continuation_inherits [where fs = orphan_fs and path = "''o.log''"
        and contents = orphan_text and h = fnv1a and st = LogViewerState_init and i = 0,
        OF a n(1) [unfolded orphan_logs_def], THEN conjunct2, THEN conjunct1]
      continuation_inherits [where fs = orphan_fs and path = "''o.log''"
        and contents = orphan_text and h = fnv1a and st = LogViewerState_init and i = 2,
        OF a n(2) [unfolded orphan_logs_def], THEN conjunct2, THEN conjunct1]
      h e
    by (simp add: a k flip: orphan_logs_def)
qed

subsection \<open>Fingerprints\<close>

lemma kept_lines_subset: "set (kept_lines lines) \<subseteq> set lines"
  by (auto simp: kept_lines_def dest: set_takeWhileD)

lemma fold_header_records:
  assumes "r \<in> set (AllLogs (snd (fold (load_line h) ls s)))" and "IsHeader r"
  shows "r \<in> set (AllLogs (snd s)) \<or>
         (\<exists>l\<in>set ls. is_header_line l \<and> FullText r = l \<and> ContentHash r = h (textToHash l))"
  using assms
proof (induction ls arbitrary: s)
  case Nil
  then show ?case by simp
next
  case (Cons l ls)
  from Cons.IH [of "load_line h l s"] Cons.prems
  consider "r \<in> set (AllLogs (snd (load_line h l s)))"
    | "\<exists>l\<in>set ls. is_header_line l \<and> FullText r = l \<and> ContentHash r = h (textToHash l)"
    by auto
  then show ?case
  proof cases
    case 1
    then show ?thesis
      using Cons.prems(2)
      by (auto simp: load_line_AllLogs entry_fields split: if_splits)
  next
    case 2
    then show ?thesis by auto
  qed
qed


text \<open>
  C1, as the code has it. A header record keeps its line as \<open>FullText\<close>, and its
  fingerprint is the hash of the line from the first \<^verbatim>\<open>Log\<close> on whenever \<^verbatim>\<open>Log\<close> occurs
  in the line, whether or not it was taken as the category; it is the hash of the whole
  line only when \<^verbatim>\<open>Log\<close> does not occur.
\<close>

theorem fingerprint_from_first_Log:
  assumes "r \<in> set (AllLogs (LoadFile h fs path st))" and "IsHeader r"
  shows "(\<exists>contents. fs path = Some contents \<and> FullText r \<in> set (getlines contents)) \<and>
         is_header_line (FullText r) \<and>
         (case str_find (FullText r) ''Log'' of
            Some catStart \<Rightarrow> ContentHash r = h (drop catStart (FullText r))
          | None \<Rightarrow> ContentHash r = h (FullText r))"
proof (cases "fs path")
  case None
  with assms(1) show ?thesis by (simp add: LoadFile_AllLogs)
next
  case (Some contents)
  let ?s = "(LoadLocals_init, st\<lparr>AllLogs := [], UniqueCategories := {''All''}\<rparr>)"
  have "r \<in> set (AllLogs (snd (fold (load_line h) (kept_lines (getlines contents)) ?s)))"
    using assms(1) Some by (simp add: LoadFile_AllLogs)
  from fold_header_records [OF this assms(2)]
  obtain l where l: "l \<in> set (kept_lines (getlines contents))" "is_header_line l"
      "FullText r = l" "ContentHash r = h (textToHash l)"
    by auto
  have "FullText r \<in> set (getlines contents)"
    using l(1,3) kept_lines_subset by blast
  moreover have "case str_find (FullText r) ''Log'' of
            Some catStart \<Rightarrow> ContentHash r = h (drop catStart (FullText r))
          | None \<Rightarrow> ContentHash r = h (FullText r)"
    using l(3,4) by (simp add: textToHash_def substr_def split: option.split)
  ultimately show ?thesis
    using Some l(2,3) by simp
qed


text \<open>
  The line \<^verbatim>\<open>[12] MyLogger: started\<close> has \<^verbatim>\<open>Log\<close> at position 7, after a letter: the
  category stays \<^verbatim>\<open>General\<close> and the fingerprint is that of \<^verbatim>\<open>Logger: started\<close>.
\<close>

theorem fingerprint_from_first_Log_witness:
  "unaccepted_logs ! 0 \<in> set unaccepted_logs \<and> IsHeader (unaccepted_logs ! 0) \<and>
   FullText (unaccepted_logs ! 0) = ''[12] MyLogger: started'' \<and>
   str_find (FullText (unaccepted_logs ! 0)) ''Log'' = Some 7 \<and>
   ContentHash (unaccepted_logs ! 0) = fnv1a ''Logger: started''"
proof -
  have a: "unaccepted_logs ! 0 \<in> set unaccepted_logs" "IsHeader (unaccepted_logs ! 0)"
    and t: "FullText (unaccepted_logs ! 0) = ''[12] MyLogger: started''"
    by code_simp+
  have f: "str_find ''[12] MyLogger: started'' ''Log'' = Some 7"
    by code_simp
  show ?thesis
    using fingerprint_from_first_Log [OF a [unfolded unaccepted_logs_def]]
    by (simp add: a t f flip: unaccepted_logs_def)
qed


text \<open>
  C1 as stated fails: for both headers of \<open>unaccepted_text\<close> no category is detected,
  one by the guard on the character before \<^verbatim>\<open>Log\<close> and one for want of a colon, and
  neither fingerprint is the hash of the whole line.
\<close>

theorem fingerprint_whole_line_counterexample:
  "map FullText unaccepted_logs = [''[12] MyLogger: started'', ''[13] LogTemp no colon here''] \<and>
   map IsHeader unaccepted_logs = [True, True] \<and>
   map Category unaccepted_logs = [''General'', ''General''] \<and>
   map (\<lambda>r. textToHash (FullText r)) unaccepted_logs
     = [''Logger: started'', ''LogTemp no colon here''] \<and>
   map ContentHash unaccepted_logs
     = [fnv1a ''Logger: started'', fnv1a ''LogTemp no colon here''] \<and>
   ContentHash (unaccepted_logs ! 0) \<noteq> fnv1a (FullText (unaccepted_logs ! 0)) \<and>
   ContentHash (unaccepted_logs ! 1) \<noteq> fnv1a (FullText (unaccepted_logs ! 1))"
  by code_simp


subsection \<open>A file that does not open\<close>

lemma LoadFile_unreadable:
  "fs path = None \<Longrightarrow> LoadFile h fs path st = st\<lparr>AllLogs := [], UniqueCategories := {''All''}\<rparr>"
  by (simp add: LoadFile_def)


text \<open>
  C2. After the example file was loaded, loading a path that does not open empties the
  records and resets the categories, but returns before \<open>ApplyFilters\<close>: the view keeps
  the positions 0, 1 and 2 of the records that are gone, and drawing the rows reads
  outside the vector.
\<close>

theorem unreadable_keeps_stale_view:
  "AllLogs reloaded = [] \<and> UniqueCategories reloaded = {''All''} \<and>
   FilteredIndices reloaded = [0, 1, 2] \<and>
   render_rows (AllLogs reloaded) (FilteredIndices reloaded) = None"
  by code_simp


subsection \<open>The level counters\<close>

lemma load_line_LevelsCount:
  assumes "levels_at (LevelsCount (snd s)) lv = w + of_nat (count_level lv (AllLogs (snd s)))"
  shows "levels_at (LevelsCount (snd (load_line h line s))) lv
           = w + of_nat (count_level lv (AllLogs (snd (load_line h line s))))"
proof -
  let ?e = "if is_header_line line then header_entry h line (CurrentIndex (fst s) + 1)
        else continuation_entry line (CurrentIndex (fst s) + 1)
               (currentLevel (fst s)) (currentCategory (fst s))"
  have upd: "levels_at (LevelsCount (snd (load_line h line s))) lv
               = levels_at (LevelsCount (snd s)) lv + (if Level ?e = lv then 1 else 0)"
    by (cases "is_header_line line") (simp_all add: load_line_def Let_def levels_at_def)
  have cnt: "count_level lv (AllLogs (snd (load_line h line s)))
               = count_level lv (AllLogs (snd s)) + (if Level ?e = lv then 1 else 0)"
    by (simp add: load_line_AllLogs count_level_def)
  show ?thesis
    unfolding upd cnt assms by simp
qed

lemma fold_LevelsCount:
  assumes "levels_at (LevelsCount (snd s)) lv = w + of_nat (count_level lv (AllLogs (snd s)))"
  shows "levels_at (LevelsCount (snd (fold (load_line h) ls s))) lv
           = w + of_nat (count_level lv (AllLogs (snd (fold (load_line h) ls s))))"
  using assms
proof (induction ls arbitrary: s)
  case Nil
  then show ?case by simp
next
  case (Cons l ls)
  from Cons.IH [OF load_line_LevelsCount [OF Cons.prems]]
  show ?case by simp
qed

text \<open>A load adds the number of its records of a level to the counter, as words.\<close>

lemma LoadFile_LevelsCount:
  "levels_at (LevelsCount (LoadFile h fs path st)) lv
     = levels_at (LevelsCount st) lv + of_nat (count_level lv (AllLogs (LoadFile h fs path st)))"
proof (cases "fs path")
  case None
  then show ?thesis by (simp add: LoadFile_unreadable count_level_def)
next
  case (Some contents)
  let ?s = "(LoadLocals_init, st\<lparr>AllLogs := [], UniqueCategories := {''All''}\<rparr>)"
  have "levels_at (LevelsCount (snd ?s)) lv
          = levels_at (LevelsCount st) lv + of_nat (count_level lv (AllLogs (snd ?s)))"
    by (simp add: count_level_def)
  from fold_LevelsCount [OF this, of h "kept_lines (getlines contents)"] Some
  show ?thesis
    by (simp add: LoadFile_def Let_def ApplyFilters_def load_loop_fold)
qed

lemma sint_add_of_nat:
  fixes w :: cint
  assumes "sint w + int n < 2 ^ 31"
  shows "sint (w + of_nat n) = sint w + int n"
proof -
  have lo: "- (2 ^ 31) \<le> sint w + int n"
    using sint_ge [of w] by simp
  have "w + of_nat n = word_of_int (sint w + int n)"
    by simp
  then have "sint (w + of_nat n) = signed_take_bit 31 (sint w + int n)"
    by (simp only: sint_sbintrunc') simp
  also have "\<dots> = sint w + int n"
    using lo assms by (simp add: signed_take_bit_int_eq_self)
  finally show ?thesis .
qed

text \<open>A load leaves the sentinel and the categories of its own records.\<close>

lemma load_line_UniqueCategories:
  assumes "UniqueCategories (snd s) = insert ''All'' (Category ` set (AllLogs (snd s)))"
  shows "UniqueCategories (snd (load_line h line s))
           = insert ''All'' (Category ` set (AllLogs (snd (load_line h line s))))"
  using assms by (auto simp: load_line_def Let_def)

lemma fold_UniqueCategories:
  assumes "UniqueCategories (snd s) = insert ''All'' (Category ` set (AllLogs (snd s)))"
  shows "UniqueCategories (snd (fold (load_line h) ls s))
           = insert ''All'' (Category ` set (AllLogs (snd (fold (load_line h) ls s))))"
  using assms
proof (induction ls arbitrary: s)
  case Nil
  then show ?case by simp
next
  case (Cons l ls)
  from Cons.IH [OF load_line_UniqueCategories [OF Cons.prems]]
  show ?case by simp
qed

lemma LoadFile_UniqueCategories:
  "UniqueCategories (LoadFile h fs path st)
     = insert ''All'' (Category ` set (AllLogs (LoadFile h fs path st)))"
proof (cases "fs path")
  case None
  then show ?thesis by (simp add: LoadFile_unreadable)
next
  case (Some contents)
  let ?s = "(LoadLocals_init, st\<lparr>AllLogs := [], UniqueCategories := {''All''}\<rparr>)"
  have "UniqueCategories (snd ?s) = insert ''All'' (Category ` set (AllLogs (snd ?s)))"
    by simp
  from fold_UniqueCategories [OF this, of h "kept_lines (getlines contents)"] Some
  show ?thesis
    by (simp add: LoadFile_def Let_def ApplyFilters_def load_loop_fold)
qed

lemma LoadFile_AllLogs_indep:
  "AllLogs (LoadFile h fs path st) = AllLogs (LoadFile h fs path st')"
proof -
  have "AllLogs (snd (fold (load_line h) ls (loc, a))) = AllLogs (snd (fold (load_line h) ls (loc, b)))"
    if "AllLogs a = AllLogs b" for ls loc a b
    using that
  proof (induction ls arbitrary: loc a b)
    case Nil
    then show ?case by simp
  next
    case (Cons l ls)
    have "fst (load_line h l (loc, a)) = fst (load_line h l (loc, b))"
      by (simp add: load_line_def Let_def)
    moreover have "AllLogs (snd (load_line h l (loc, a))) = AllLogs (snd (load_line h l (loc, b)))"
      using Cons.prems by (simp add: load_line_AllLogs)
    ultimately show ?case
      using Cons.IH [of "snd (load_line h l (loc, a))" "snd (load_line h l (loc, b))"
          "fst (load_line h l (loc, a))"]
      by (metis fold_simps(2) prod.collapse)
  qed
  then show ?thesis
    by (simp add: LoadFile_AllLogs split: option.split)
qed

text \<open>
  C10, as the code has it. \<open>LoadFile\<close> starts the records and the category set afresh:
  after two loads the records are those of the second file whatever the state before
  was, and the categories are \<^verbatim>\<open>All\<close> and those of these records. It keeps counting in
  \<open>LevelsCount\<close>: where the count stays below \<open>2 ^ 31\<close>, the counter of a level after
  two loads is its value before the first load plus the number of records of that level
  of the first file plus that of the second. It is the sum over the two files when the
  counter was 0 before the first load.
\<close>

theorem counters_accumulate:
  assumes "sint (levels_at (LevelsCount st) lv)
             + int (count_level lv (AllLogs (LoadFile h fs1 path1 st)))
             + int (count_level lv (AllLogs (LoadFile h fs2 path2 (LoadFile h fs1 path1 st))))
           < 2 ^ 31"
  shows "sint (levels_at (LevelsCount (LoadFile h fs2 path2 (LoadFile h fs1 path1 st))) lv)
           = sint (levels_at (LevelsCount st) lv)
             + int (count_level lv (AllLogs (LoadFile h fs1 path1 st)))
             + int (count_level lv (AllLogs (LoadFile h fs2 path2 (LoadFile h fs1 path1 st))))
       \<and> (levels_at (LevelsCount st) lv = 0 \<longrightarrow>
            sint (levels_at (LevelsCount (LoadFile h fs2 path2 (LoadFile h fs1 path1 st))) lv)
              = int (count_level lv (AllLogs (LoadFile h fs1 path1 st)))
                + int (count_level lv (AllLogs (LoadFile h fs2 path2 (LoadFile h fs1 path1 st)))))
       \<and> AllLogs (LoadFile h fs2 path2 (LoadFile h fs1 path1 st))
           = AllLogs (LoadFile h fs2 path2 LogViewerState_init)
       \<and> UniqueCategories (LoadFile h fs2 path2 (LoadFile h fs1 path1 st))
           = insert ''All''
               (Category ` set (AllLogs (LoadFile h fs2 path2 (LoadFile h fs1 path1 st))))"
proof -
  let ?n1 = "count_level lv (AllLogs (LoadFile h fs1 path1 st))"
  let ?n2 = "count_level lv (AllLogs (LoadFile h fs2 path2 (LoadFile h fs1 path1 st)))"
  have "levels_at (LevelsCount (LoadFile h fs2 path2 (LoadFile h fs1 path1 st))) lv
          = levels_at (LevelsCount st) lv + of_nat (?n1 + ?n2)"
    by (simp only: LoadFile_LevelsCount of_nat_add add.assoc)
  moreover have "sint (levels_at (LevelsCount st) lv) + int (?n1 + ?n2) < 2 ^ 31"
    using assms by simp
  ultimately have eq: "sint (levels_at (LevelsCount (LoadFile h fs2 path2 (LoadFile h fs1 path1 st))) lv)
          = sint (levels_at (LevelsCount st) lv) + int ?n1 + int ?n2"
    by (simp only: sint_add_of_nat)
  have recs: "AllLogs (LoadFile h fs2 path2 (LoadFile h fs1 path1 st))
           = AllLogs (LoadFile h fs2 path2 LogViewerState_init)"
    by (rule LoadFile_AllLogs_indep)
  have cats: "UniqueCategories (LoadFile h fs2 path2 (LoadFile h fs1 path1 st))
           = insert ''All''
               (Category ` set (AllLogs (LoadFile h fs2 path2 (LoadFile h fs1 path1 st))))"
    by (rule LoadFile_UniqueCategories)
  from eq have "levels_at (LevelsCount st) lv = 0 \<longrightarrow>
            sint (levels_at (LevelsCount (LoadFile h fs2 path2 (LoadFile h fs1 path1 st))) lv)
              = int ?n1 + int ?n2"
    by simp
  with eq recs cats show ?thesis
    by blast
qed

lemma orphan_then_example:
  "AllLogs (LoadFile fnv1a orphan_fs ''o.log'' LogViewerState_init) = orphan_logs"
  "AllLogs (LoadFile fnv1a example_fs ''cook.log''
      (LoadFile fnv1a orphan_fs ''o.log'' LogViewerState_init)) = example_entries"
  using LoadFile_AllLogs_indep [of fnv1a example_fs "''cook.log''"
      "LoadFile fnv1a orphan_fs ''o.log'' LogViewerState_init" LogViewerState_init]
  by (simp_all add: example_loaded orphan_logs_def)

text \<open>
  After the file with two warnings in \<^verbatim>\<open>LogA\<close> and the example file with none, the
  warning counter is 2 and the categories are \<^verbatim>\<open>All\<close> and \<^verbatim>\<open>LogCook\<close>.
\<close>

theorem counters_accumulate_witness:
  "sint (levels_at (LevelsCount LogViewerState_init) Warning)
     + int (count_level Warning (AllLogs (LoadFile fnv1a orphan_fs ''o.log'' LogViewerState_init)))
     + int (count_level Warning (AllLogs (LoadFile fnv1a example_fs ''cook.log''
         (LoadFile fnv1a orphan_fs ''o.log'' LogViewerState_init))))
     < 2 ^ 31 \<and>
   levels_at (LevelsCount LogViewerState_init) Warning = 0 \<and>
   count_level Warning (AllLogs (LoadFile fnv1a orphan_fs ''o.log'' LogViewerState_init)) = 2 \<and>
   count_level Warning (AllLogs (LoadFile fnv1a example_fs ''cook.log''
      (LoadFile fnv1a orphan_fs ''o.log'' LogViewerState_init))) = 0 \<and>
   sint (levels_at (LevelsCount (LoadFile fnv1a example_fs ''cook.log''
      (LoadFile fnv1a orphan_fs ''o.log'' LogViewerState_init))) Warning) = 2 \<and>
   UniqueCategories (LoadFile fnv1a example_fs ''cook.log''
      (LoadFile fnv1a orphan_fs ''o.log'' LogViewerState_init)) = {''All'', ''LogCook''}"
proof -
  have z: "levels_at (LevelsCount LogViewerState_init) Warning = 0"
    by (simp add: levels_at_def LogViewerState_init_def)
  have n: "count_level Warning orphan_logs = 2" "count_level Warning example_entries = 0"
    by code_simp+
  have c: "insert ''All'' (Category ` set example_entries) = {''All'', ''LogCook''}"
    by code_simp
  have b: "sint (levels_at (LevelsCount LogViewerState_init) Warning)
     + int (count_level Warning (AllLogs (LoadFile fnv1a orphan_fs ''o.log'' LogViewerState_init)))
     + int (count_level Warning (AllLogs (LoadFile fnv1a example_fs ''cook.log''
         (LoadFile fnv1a orphan_fs ''o.log'' LogViewerState_init))))
     < 2 ^ 31"
    by (simp add: z n orphan_then_example)
  show ?thesis
    using counters_accumulate [OF b] b
    by (simp add: z n c orphan_then_example)
qed

text \<open>
  C10 as stated fails for the second and third of three loads of the example file: the
  error counter is 9, the error records of the two files are 3 and 3.
\<close>

theorem counter_not_sum_counterexample:
  "count_level Error (AllLogs loaded_twice) = 3 \<and>
   count_level Error (AllLogs loaded_thrice) = 3 \<and>
   sint (levels_at (LevelsCount loaded_thrice) Error) = 9 \<and>
   sint (levels_at (LevelsCount loaded_thrice) Error)
     \<noteq> int (count_level Error (AllLogs loaded_twice))
       + int (count_level Error (AllLogs loaded_thrice))"
proof -
  have a: "AllLogs (LoadFile fnv1a example_fs ''cook.log'' st) = example_entries" for st
    using LoadFile_AllLogs_indep [of fnv1a example_fs "''cook.log''" st LogViewerState_init]
    by (simp add: example_loaded)
  have e: "count_level Error example_entries = 3"
    by code_simp
  have z: "levels_at (LevelsCount LogViewerState_init) Error = 0"
    by (simp add: levels_at_def LogViewerState_init_def)
  have "levels_at (LevelsCount loaded_thrice) Error = 9"
    by (simp add: loaded_thrice_def loaded_twice_def loaded_once_def LoadFile_LevelsCount a e z)
  then show ?thesis
    by (simp add: loaded_thrice_def loaded_twice_def a e)
qed

end
